theory Spec2Isabelle
  imports Main
begin

section \<open>Strings\<close>

text \<open>
  Go strings are byte sequences; they are modelled as \<^typ>\<open>string\<close> (a list of 8-bit
  characters). The functions of package \<^verbatim>\<open>strings\<close> that \<^verbatim>\<open>iter.go\<close> calls are
  written out below. The router only ever splits and cuts on a one-byte separator
  (\<^verbatim>\<open>"/"\<close> and \<^verbatim>\<open>"|"\<close>), so the separator of \<open>Split\<close> and \<open>Cut\<close> is a single character.
\<close>

text \<open>\<^verbatim>\<open>strings.Split(s, sep)\<close>: the pieces of \<open>s\<close> between the separators; never empty.\<close>

fun Split :: "string \<Rightarrow> char \<Rightarrow> string list" where
  "Split [] sep = [[]]"
| "Split (c # cs) sep =
     (if c = sep then [] # Split cs sep
      else (case Split cs sep of
              [] \<Rightarrow> [[c]]
            | w # ws \<Rightarrow> (c # w) # ws))"

text \<open>\<^verbatim>\<open>strings.Join(elems, sep)\<close>.\<close>

fun Join :: "string list \<Rightarrow> string \<Rightarrow> string" where
  "Join [] sep = []"
| "Join [x] sep = x"
| "Join (x # y # ys) sep = x @ sep @ Join (y # ys) sep"

text \<open>\<^verbatim>\<open>strings.HasPrefix\<close>, \<^verbatim>\<open>strings.HasSuffix\<close> and \<^verbatim>\<open>strings.TrimPrefix\<close>.\<close>

definition HasPrefix :: "string \<Rightarrow> string \<Rightarrow> bool" where
  "HasPrefix s p = (length p \<le> length s \<and> take (length p) s = p)"

definition HasSuffix :: "string \<Rightarrow> string \<Rightarrow> bool" where
  "HasSuffix s suf = (length suf \<le> length s \<and> drop (length s - length suf) s = suf)"

definition TrimPrefix :: "string \<Rightarrow> string \<Rightarrow> string" where
  "TrimPrefix s p = (if HasPrefix s p then drop (length p) s else s)"

text \<open>
  \<^verbatim>\<open>strings.Cut(s, sep)\<close>: the text before and after the first separator and \<open>True\<close>,
  or \<open>(s, "", False)\<close> when \<open>s\<close> has no separator.
\<close>

definition Cut :: "string \<Rightarrow> char \<Rightarrow> string \<times> string \<times> bool" where
  "Cut s sep =
     (if sep \<in> set s
      then (takeWhile (\<lambda>c. c \<noteq> sep) s, tl (dropWhile (\<lambda>c. c \<noteq> sep) s), True)
      else (s, [], False))"

text \<open>
  \<^verbatim>\<open>strings.ToUpper\<close> on ASCII text, which is what HTTP method names are: the letters
  \<open>a\<close> to \<open>z\<close> move to \<open>A\<close> to \<open>Z\<close>, every other byte stays.
\<close>

definition upper_char :: "char \<Rightarrow> char" where
  "upper_char c =
     (let n = (of_char c :: nat) in if 97 \<le> n \<and> n \<le> 122 then char_of (n - 32) else c)"

definition ToUpper :: "string \<Rightarrow> string" where
  "ToUpper s = map upper_char s"

text \<open>The helper \<^verbatim>\<open>contains\<close> of \<^verbatim>\<open>iter.go\<close>: a linear scan.\<close>

fun contains :: "string list \<Rightarrow> string \<Rightarrow> bool" where
  "contains [] e = False"
| "contains (a # s) e = (if a = e then True else contains s e)"

section \<open>Regular expressions\<close>

text \<open>
  Package \<^verbatim>\<open>regexp\<close> belongs to Go's standard library, not to the repository. A
  compiled expression is modelled by its syntax tree, for the fragment with literals,
  byte ranges, the anchors \<^verbatim>\<open>^\<close> and \<^verbatim>\<open>$\<close>, sequence, alternation, star and plus.
  \<open>ends re s i\<close> lists the positions where a match of \<open>re\<close> that starts at position \<open>i\<close>
  of the text \<open>s\<close> can end.
\<close>

datatype regexp =
    Lit char
  | Range char char
  | Bol
  | Eol
  | Seq regexp regexp
  | Alt regexp regexp
  | Star regexp
  | Plus regexp

fun iterate_ends :: "(nat \<Rightarrow> nat list) \<Rightarrow> nat \<Rightarrow> nat list \<Rightarrow> nat list" where
  "iterate_ends f 0 ps = ps"
| "iterate_ends f (Suc n) ps = iterate_ends f n (remdups (ps @ concat (map f ps)))"

primrec ends :: "regexp \<Rightarrow> string \<Rightarrow> nat \<Rightarrow> nat list" where
  "ends (Lit c) s i = (if i < length s \<and> s ! i = c then [Suc i] else [])"
| "ends (Range lo hi) s i =
     (if i < length s \<and> (of_char lo :: nat) \<le> of_char (s ! i)
         \<and> (of_char (s ! i) :: nat) \<le> of_char hi
      then [Suc i] else [])"
| "ends Bol s i = (if i = 0 then [i] else [])"
| "ends Eol s i = (if i = length s then [i] else [])"
| "ends (Seq a b) s i = concat (map (ends b s) (ends a s i))"
| "ends (Alt a b) s i = ends a s i @ ends b s i"
| "ends (Star a) s i = iterate_ends (ends a s) (length s) [i]"
| "ends (Plus a) s i = iterate_ends (ends a s) (length s) (ends a s i)"

text \<open>
  \<^verbatim>\<open>(*Regexp).MatchString(s)\<close> reports whether \<open>s\<close> contains any match of the
  expression: the match may start and end anywhere in \<open>s\<close>.
\<close>

definition MatchString :: "regexp \<Rightarrow> string \<Rightarrow> bool" where
  "MatchString re s = list_ex (\<lambda>i. ends re s i \<noteq> []) [0..<Suc (length s)]"

text \<open>The expression matches the full text: a match that starts at 0 ends at the end.\<close>

definition full_match :: "regexp \<Rightarrow> string \<Rightarrow> bool" where
  "full_match re s = (length s \<in> set (ends re s 0))"

section \<open>Requests, response writers, handlers\<close>

text \<open>
  The values that this package stores in a request's context have the unexported key
  type \<^verbatim>\<open>key\<close> and are strings, so the context is a map from names to strings;
  \<^verbatim>\<open>context.WithValue\<close> is the map update (a later binding of a name shadows the
  earlier one).
\<close>

type_synonym ctx = "string \<rightharpoonup> string"

definition Param :: "ctx \<Rightarrow> string \<Rightarrow> string" where
  "Param c param = (case c param of None \<Rightarrow> [] | Some s \<Rightarrow> s)"

record Request =
  Method :: string
  Path :: string
  Context :: ctx

text \<open>
  What a handler can do to an \<^verbatim>\<open>http.ResponseWriter\<close>: set headers (the keys used here
  are in canonical form already), write the status once, append to the body; the first
  write to the body fixes the status 200 when none was written.
\<close>

record ResponseWriter =
  header :: "string \<rightharpoonup> string list"
  status :: "nat option"
  body :: string

definition Header_Set :: "ResponseWriter \<Rightarrow> string \<Rightarrow> string \<Rightarrow> ResponseWriter" where
  "Header_Set w k v = w\<lparr>header := (header w)(k \<mapsto> [v])\<rparr>"

definition WriteHeader :: "ResponseWriter \<Rightarrow> nat \<Rightarrow> ResponseWriter" where
  "WriteHeader w code = (if status w = None then w\<lparr>status := Some code\<rparr> else w)"

definition Write :: "ResponseWriter \<Rightarrow> string \<Rightarrow> ResponseWriter" where
  "Write w s = (let w' = WriteHeader w 200 in w'\<lparr>body := body w' @ s\<rparr>)"

type_synonym Handler = "ResponseWriter \<Rightarrow> Request \<Rightarrow> ResponseWriter"

section \<open>Routes and the matcher\<close>

datatype error = NilRegexp | RegexpCompile string

record route =
  method' :: string
  segments :: "string list"
  wildcard :: bool
  handler :: Handler

text \<open>The process-wide cache \<^verbatim>\<open>rxPatterns\<close>: from the source text to the compiled expression.\<close>

type_synonym rxcache = "string \<rightharpoonup> regexp"

text \<open>
  The loop of \<^verbatim>\<open>route.match\<close> over the route's segments; \<open>i\<close> is the loop index and
  \<open>urlSegments\<close> the request's segments. A regular expression that is missing from the
  cache is a nil pointer, and calling \<^verbatim>\<open>MatchString\<close> on it panics.
\<close>

fun match_from :: "rxcache \<Rightarrow> string list \<Rightarrow> nat \<Rightarrow> string list \<Rightarrow> ctx \<Rightarrow> error + (ctx \<times> bool)" where
  "match_from rx [] i urlSegments c = Inr (c, True)"
| "match_from rx (segment # rest) i urlSegments c =
     (if int i > int (length urlSegments) - 1 then Inr (c, False)
      else if segment = ''...''
        then Inr (c(''...'' \<mapsto> Join (drop i urlSegments) ''/''), True)
      else if HasPrefix segment '':'' then
        (case Cut (TrimPrefix segment '':'') CHR ''|'' of
           (k, rxPattern, containsRx) \<Rightarrow>
             if containsRx then
               (case rx rxPattern of
                  None \<Rightarrow> Inl NilRegexp
                | Some re \<Rightarrow>
                    if MatchString re (urlSegments ! i)
                    then match_from rx rest (Suc i) urlSegments (c(k \<mapsto> urlSegments ! i))
                    else Inr (c, False))
             else if urlSegments ! i \<noteq> []
               then match_from rx rest (Suc i) urlSegments (c(k \<mapsto> urlSegments ! i))
             else Inr (c, False))
      else if urlSegments ! i \<noteq> segment then Inr (c, False)
      else match_from rx rest (Suc i) urlSegments c)"

definition match :: "rxcache \<Rightarrow> route \<Rightarrow> ctx \<Rightarrow> string list \<Rightarrow> error + (ctx \<times> bool)" where
  "match rx r c urlSegments =
     (if \<not> wildcard r \<and> length urlSegments \<noteq> length (segments r) then Inr (c, False)
      else match_from rx (segments r) 0 urlSegments c)"

section \<open>The router\<close>

text \<open>
  \<^verbatim>\<open>Mux\<close>. The field \<open>routes\<close> stands for the slice that the pointer \<^verbatim>\<open>m.routes\<close>
  refers to, and \<open>middleware\<close> for the slice's elements in order. (\<^verbatim>\<open>Group\<close>, which
  copies the struct, is outside this development.)
\<close>

type_synonym Middleware = "Handler \<Rightarrow> Handler"

record Mux =
  NotFound :: Handler
  MethodNotAllowed :: Handler
  Options :: Handler
  routes :: "route list"
  middleware :: "Middleware list"

text \<open>
  \<^verbatim>\<open>http.Error(w, msg, code)\<close> of Go's standard library sets the content type and
  \<^verbatim>\<open>X-Content-Type-Options\<close>, writes the status and prints the message on a line (the
  headers that newer versions of it remove are left out);
  \<^verbatim>\<open>http.NotFoundHandler()\<close> answers with \<^verbatim>\<open>http.Error\<close> and status 404.
\<close>

definition http_Error :: "ResponseWriter \<Rightarrow> string \<Rightarrow> nat \<Rightarrow> ResponseWriter" where
  "http_Error w msg code =
     Write
       (WriteHeader
          (Header_Set (Header_Set w ''Content-Type'' ''text/plain; charset=utf-8'')
             ''X-Content-Type-Options'' ''nosniff'')
          code)
       (msg @ [CHR 0x0A])"

definition New :: Mux where
  "New =
     \<lparr> NotFound = (\<lambda>w r. http_Error w ''404 page not found'' 404),
       MethodNotAllowed = (\<lambda>w r. http_Error w ''Method Not Allowed'' 405),
       Options = (\<lambda>w r. WriteHeader w 204),
       routes = [],
       middleware = [] \<rparr>"

definition Use :: "Mux \<Rightarrow> Middleware list \<Rightarrow> Mux" where
  "Use m mws = m\<lparr>middleware := middleware m @ mws\<rparr>"

text \<open>
  \<^verbatim>\<open>wrap\<close>: the loop runs \<open>i\<close> from \<open>len(m.middleware) - 1\<close> down to 0; \<open>wrap_from mws n h\<close>
  is the loop with \<open>n\<close> iterations left, the next one at index \<open>n - 1\<close>.
\<close>

fun wrap_from :: "Middleware list \<Rightarrow> nat \<Rightarrow> Handler \<Rightarrow> Handler" where
  "wrap_from mws 0 h = h"
| "wrap_from mws (Suc i) h = wrap_from mws i ((mws ! i) h)"

definition wrap :: "Mux \<Rightarrow> Handler \<Rightarrow> Handler" where
  "wrap m h = wrap_from (middleware m) (length (middleware m)) h"

definition allMethods :: "string list" where
  "allMethods =
     [''DELETE'', ''GET'', ''HEAD'', ''OPTIONS'', ''PATCH'', ''POST'', ''PUT'', ''TRACE'']"

text \<open>The struct literal in the first loop of \<^verbatim>\<open>Handle\<close>, for one method.\<close>

definition new_route :: "string \<Rightarrow> string \<Rightarrow> Handler \<Rightarrow> route" where
  "new_route pattern meth h =
     \<lparr> method' = ToUpper meth,
       segments = Split pattern CHR ''/'',
       wildcard = HasSuffix pattern ''/...'',
       handler = h \<rparr>"

text \<open>The first loop of \<^verbatim>\<open>Handle\<close>: one route per method, appended to the table.\<close>

fun add_routes :: "Mux \<Rightarrow> string \<Rightarrow> Handler \<Rightarrow> string list \<Rightarrow> Mux" where
  "add_routes m pattern h [] = m"
| "add_routes m pattern h (meth # methods) =
     add_routes (m\<lparr>routes := routes m @ [new_route pattern meth (wrap m h)]\<rparr>)
       pattern h methods"

text \<open>
  The second loop of \<^verbatim>\<open>Handle\<close>: the expression of every constrained parameter is
  compiled into the cache. \<open>compile\<close> stands for \<^verbatim>\<open>regexp.MustCompile\<close>, which panics
  (\<open>None\<close>) on a malformed expression.
\<close>

fun compile_segments ::
  "(string \<Rightarrow> regexp option) \<Rightarrow> rxcache \<Rightarrow> string list \<Rightarrow> error + rxcache" where
  "compile_segments compile rx [] = Inr rx"
| "compile_segments compile rx (segment # rest) =
     (if HasPrefix segment '':'' then
        (case Cut segment CHR ''|'' of
           (_, rxPattern, containsRx) \<Rightarrow>
             if containsRx then
               (case compile rxPattern of
                  None \<Rightarrow> Inl (RegexpCompile rxPattern)
                | Some re \<Rightarrow> compile_segments compile (rx(rxPattern \<mapsto> re)) rest)
             else compile_segments compile rx rest)
      else compile_segments compile rx rest)"

text \<open>
  \<^verbatim>\<open>Handle\<close> reads and writes the table of the router and the process-wide cache, so it
  takes and returns both. A panic of \<^verbatim>\<open>regexp.MustCompile\<close> ends the registration: the
  result is then the error.
\<close>

definition Handle ::
  "(string \<Rightarrow> regexp option) \<Rightarrow> rxcache \<times> Mux \<Rightarrow> string \<Rightarrow> Handler \<Rightarrow> string list
     \<Rightarrow> error + (rxcache \<times> Mux)" where
  "Handle compile st pattern h methods =
     (case st of (rx, m) \<Rightarrow>
        let methods1 = (if length methods = 0 then allMethods else methods);
            methods2 = (if contains methods1 ''GET'' \<and> \<not> contains methods1 ''HEAD''
                        then methods1 @ [''GET''] else methods1);
            m' = add_routes m pattern h methods2
        in (case compile_segments compile rx (Split pattern CHR ''/'') of
              Inl e \<Rightarrow> Inl e
            | Inr rx' \<Rightarrow> Inr (rx', m')))"

text \<open>
  \<^verbatim>\<open>ServeHTTP\<close>: the scan over the table, with the list \<open>allowedMethods\<close> as the loop's
  state, and what follows the loop.
\<close>

fun serve_routes ::
  "rxcache \<Rightarrow> Mux \<Rightarrow> ResponseWriter \<Rightarrow> Request \<Rightarrow> string list \<Rightarrow> route list \<Rightarrow> string list
     \<Rightarrow> error + ResponseWriter" where
  "serve_routes rx m w r segs [] allowedMethods =
     (if length allowedMethods > 0 then
        (let w' = Header_Set w ''Allow'' (Join (allowedMethods @ [''OPTIONS'']) '','')
         in if Method r = ''OPTIONS'' then Inr (wrap m (Options m) w' r)
            else Inr (wrap m (MethodNotAllowed m) w' r))
      else Inr (wrap m (NotFound m) w r))"
| "serve_routes rx m w r segs (rt # rts) allowedMethods =
     (case match rx rt (Context r) segs of
        Inl e \<Rightarrow> Inl e
      | Inr (c, ok) \<Rightarrow>
          if ok then
            (if Method r = method' rt then Inr (handler rt w (r\<lparr>Context := c\<rparr>))
             else serve_routes rx m w r segs rts
                    (if \<not> contains allowedMethods (method' rt)
                     then allowedMethods @ [method' rt] else allowedMethods))
          else serve_routes rx m w r segs rts allowedMethods)"

definition ServeHTTP :: "rxcache \<Rightarrow> Mux \<Rightarrow> ResponseWriter \<Rightarrow> Request \<Rightarrow> error + ResponseWriter" where
  "ServeHTTP rx m w r = serve_routes rx m w r (Split (Path r) CHR ''/'') (routes m) []"

section \<open>An invariant of the cache\<close>

text \<open>
  The cache covers a list of route segments when the expression of every constrained
  parameter among them has an entry. The second loop of \<^verbatim>\<open>Handle\<close> establishes this for
  the pattern it registers, and no entry is ever removed.
\<close>

definition cache_covers :: "rxcache \<Rightarrow> string list \<Rightarrow> bool" where
  "cache_covers rx segs =
     list_all (\<lambda>segment.
        \<not> HasPrefix segment '':'' \<or>
        (case Cut (TrimPrefix segment '':'') CHR ''|'' of
           (k, rxPattern, containsRx) \<Rightarrow> \<not> containsRx \<or> rx rxPattern \<noteq> None)) segs"

section \<open>Example handlers\<close>

text \<open>
  Two handlers for the examples: a handler that writes a text to the body, and a
  middleware that writes its name before and after the handler it wraps, so that the body
  shows the order in which the layers ran.
\<close>

definition trace_handler :: "string \<Rightarrow> Handler" where
  "trace_handler name = (\<lambda>w r. Write w name)"

definition trace_middleware :: "string \<Rightarrow> Middleware" where
  "trace_middleware name next =
     (\<lambda>w r. Write (next (Write w (name @ ''>'')) r) (''<'' @ name))"

section \<open>Facts about the string functions\<close>

lemma Split_nonempty: "Split s sep \<noteq> []"
  by (induction s) (auto split: list.splits)

lemma Split_append_sep: "Split (p @ sep # q) sep = Split p sep @ Split q sep"
  by (induction p) (auto split: list.splits simp: Split_nonempty)

lemma HasPrefix_colon: "HasPrefix (CHR '':'' # name) '':''"
  by (simp add: HasPrefix_def)

lemma TrimPrefix_colon: "TrimPrefix (CHR '':'' # name) '':'' = name"
  by (simp add: TrimPrefix_def HasPrefix_def)

lemma Cut_absent: "sep \<notin> set s \<Longrightarrow> Cut s sep = (s, [], False)"
  by (simp add: Cut_def)

lemma Cut_first: "sep \<notin> set k \<Longrightarrow> Cut (k @ sep # v) sep = (k, v, True)"
  by (induction k) (auto simp: Cut_def)

text \<open>A pattern that ends in \<^verbatim>\<open>/...\<close> splits into the segments before it and the token \<^verbatim>\<open>...\<close>.\<close>

lemma Split_wildcard_suffix:
  assumes "HasSuffix pattern ''/...''"
  shows "Split pattern CHR ''/'' = Split (take (length pattern - 4) pattern) CHR ''/'' @ [''...'']"
proof -
  from assms have "drop (length pattern - 4) pattern = ''/...''"
    by (simp add: HasSuffix_def eval_nat_numeral)
  then have "pattern = take (length pattern - 4) pattern @ CHR ''/'' # ''...''"
    by (metis append_take_drop_id)
  then have "Split pattern CHR ''/'' =
      Split (take (length pattern - 4) pattern @ CHR ''/'' # ''...'') CHR ''/''"
    by simp
  also have "\<dots> = Split (take (length pattern - 4) pattern) CHR ''/'' @ Split ''...'' CHR ''/''"
    by (rule Split_append_sep)
  finally show ?thesis by simp
qed

section \<open>Facts about the regular expressions\<close>

lemma MatchString_iff: "MatchString re s = (\<exists>i \<le> length s. ends re s i \<noteq> [])"
proof -
  have "set [0..<Suc (length s)] = {i. i \<le> length s}"
    by (auto simp del: upt_Suc)
  then show ?thesis
    unfolding MatchString_def list_ex_iff by blast
qed

lemma concat_ends_Eol: "concat (map (ends Eol s) js) = filter (\<lambda>j. j = length s) js"
  by (induction js) auto

lemma ends_anchored:
  "ends (Seq Bol (Seq re Eol)) s i =
     (if i = 0 then filter (\<lambda>j. j = length s) (ends re s 0) else [])"
  by (simp add: concat_ends_Eol)

text \<open>Between \<^verbatim>\<open>^\<close> and \<^verbatim>\<open>$\<close> the search of \<open>MatchString\<close> is a match of the full text.\<close>

lemma MatchString_anchored: "MatchString (Seq Bol (Seq re Eol)) s = full_match re s"
proof -
  have "MatchString (Seq Bol (Seq re Eol)) s
          = (\<exists>i \<le> length s. ends (Seq Bol (Seq re Eol)) s i \<noteq> [])"
    by (rule MatchString_iff)
  also have "\<dots> = (filter (\<lambda>j. j = length s) (ends re s 0) \<noteq> [])"
    by (auto simp: ends_anchored simp del: ends.simps)
  also have "\<dots> = full_match re s"
    by (auto simp: full_match_def filter_empty_conv)
  finally show ?thesis .
qed

lemma full_match_MatchString: "full_match re s \<Longrightarrow> MatchString re s"
  by (auto simp: full_match_def MatchString_iff intro!: exI [where x = 0])

lemma MatchString_digits_abc42: "MatchString (Plus (Range CHR ''0'' CHR ''9'')) ''abc42''"
  by code_simp

lemma MatchString_digits_abc: "\<not> MatchString (Plus (Range CHR ''0'' CHR ''9'')) ''abc''"
  by code_simp

lemma full_match_digits_abc42: "\<not> full_match (Plus (Range CHR ''0'' CHR ''9'')) ''abc42''"
  by code_simp

lemma Cut_id_rx: "Cut ''id|[0-9]+'' CHR ''|'' = (''id'', ''[0-9]+'', True)"
  using Cut_first [of "CHR ''|''" "''id''" "''[0-9]+''"] by simp

section \<open>The matcher\<close>

text \<open>
  As long as no segment is the token \<^verbatim>\<open>...\<close>, the loop over \<open>pre @ post\<close> is the loop over
  \<open>pre\<close> followed, when that succeeds, by the loop over \<open>post\<close> from the next index.
\<close>

lemma match_from_append:
  "''...'' \<notin> set pre \<Longrightarrow> n = i + length pre \<Longrightarrow>
   match_from rx (pre @ post) i us c =
     (case match_from rx pre i us c of
        Inr (c', True) \<Rightarrow> match_from rx post n us c'
      | other \<Rightarrow> other)"
proof (induction pre arbitrary: i c)
  case Nil
  then show ?case by simp
next
  case (Cons s pre)
  then have IH: "\<And>c. match_from rx (pre @ post) (Suc i) us c =
     (case match_from rx pre (Suc i) us c of
        Inr (c', True) \<Rightarrow> match_from rx post n us c'
      | other \<Rightarrow> other)" and ne: "s \<noteq> ''...''" by auto
  show ?case
    by (simp add: IH ne split: prod.splits option.splits)
qed

text \<open>A successful loop without the token \<^verbatim>\<open>...\<close> has found a request segment at every index.\<close>

lemma match_from_short:
  "''...'' \<notin> set pre \<Longrightarrow> match_from rx pre i us c = Inr (c', True) \<Longrightarrow> i \<le> length us
     \<Longrightarrow> i + length pre \<le> length us"
proof (induction pre arbitrary: i c)
  case Nil
  then show ?case by simp
next
  case (Cons s pre)
  then show ?case
    by (fastforce split: prod.splits option.splits if_splits)
qed

lemma match_from_wildcard_token:
  assumes "''...'' \<notin> set pre" and "match_from rx pre 0 us c = Inr (c', True)"
  shows "match_from rx (pre @ ''...'' # post) 0 us c =
           (if length pre < length us
            then Inr (c'(''...'' \<mapsto> Join (drop (length pre) us) ''/''), True)
            else Inr (c', False))"
  using assms by (simp add: match_from_append [where n = "length pre"])

subsection \<open>Regex-constrained parameters\<close>

text \<open>
  Claim C2 says that a segment \<^verbatim>\<open>:name|<regex>\<close> matches a request segment only if the
  regex matches the request segment's full text. The matcher calls \<^verbatim>\<open>MatchString\<close>, which
  searches: with the expression \<^verbatim>\<open>[0-9]+\<close> the pattern \<^verbatim>\<open>/users/:id|[0-9]+\<close> matches the
  path \<^verbatim>\<open>/users/abc42\<close> and binds \<open>id\<close> to \<^verbatim>\<open>abc42\<close>, although \<^verbatim>\<open>[0-9]+\<close> does not match the
  full text \<^verbatim>\<open>abc42\<close>.
\<close>

theorem C2_counterexample:
  "match [''[0-9]+'' \<mapsto> Plus (Range CHR ''0'' CHR ''9'')]
      (new_route ''/users/:id|[0-9]+'' ''GET'' (\<lambda>w r. w)) Map.empty (Split ''/users/abc42'' CHR ''/'')
     = Inr ([''id'' \<mapsto> ''abc42''], True)
   \<and> \<not> full_match (Plus (Range CHR ''0'' CHR ''9'')) ''abc42''"
  by (simp add: new_route_def match_def HasSuffix_def HasPrefix_def TrimPrefix_def Cut_id_rx
        MatchString_digits_abc42 full_match_digits_abc42)

text \<open>
  Claim C2, as the code has it: at a segment \<^verbatim>\<open>:name|<regex>\<close> whose expression is in the
  cache, the matcher goes on to the next segment, with \<open>name\<close> bound to the full text of
  the request segment, exactly when the expression matches somewhere in the request
  segment (the search of \<^verbatim>\<open>MatchString\<close>), and reports no match otherwise. A match of the
  full text is enough for that, and for an expression written between \<^verbatim>\<open>^\<close> and \<^verbatim>\<open>$\<close>
  the search is a match of the full text.
\<close>

theorem C2_regex_parameter_search:
  assumes "segment = CHR '':'' # name @ CHR ''|'' # src"
    and "CHR ''|'' \<notin> set name"
    and "rx src = Some re"
    and "i < length us"
  shows "match_from rx (segment # rest) i us c =
           (if MatchString re (us ! i)
            then match_from rx rest (Suc i) us (c(name \<mapsto> us ! i))
            else Inr (c, False))
       \<and> (full_match re (us ! i) \<longrightarrow> MatchString re (us ! i))
       \<and> MatchString (Seq Bol (Seq re Eol)) (us ! i) = full_match re (us ! i)"
  using assms
  by (simp add: HasPrefix_colon TrimPrefix_colon Cut_first full_match_MatchString
        MatchString_anchored del: ends.simps)

theorem C2_witness:
  "match_from [''[0-9]+'' \<mapsto> Plus (Range CHR ''0'' CHR ''9'')] ['':id|[0-9]+''] 0 [''abc42''] Map.empty
     = Inr ([''id'' \<mapsto> ''abc42''], True)
   \<and> match_from [''[0-9]+'' \<mapsto> Plus (Range CHR ''0'' CHR ''9'')] ['':id|[0-9]+''] 0 [''abc''] Map.empty
     = Inr (Map.empty, False)"
proof -
  let ?rx = "[''[0-9]+'' \<mapsto> Plus (Range CHR ''0'' CHR ''9'')]"
  let ?re = "Plus (Range CHR ''0'' CHR ''9'')"
  have a: "match_from ?rx ['':id|[0-9]+''] 0 [''abc42''] Map.empty
        = (if MatchString ?re ([''abc42''] ! 0)
           then match_from ?rx [] (Suc 0) [''abc42''] ((Map.empty :: ctx)(''id'' \<mapsto> [''abc42''] ! 0))
           else Inr (Map.empty, False))"
    using C2_regex_parameter_search [where name = "''id''" and src = "''[0-9]+''" and rx = ?rx
        and re = ?re and i = 0 and us = "[''abc42'']" and rest = "[]" and c = Map.empty]
    by simp
  have b: "match_from ?rx ['':id|[0-9]+''] 0 [''abc''] Map.empty
        = (if MatchString ?re ([''abc''] ! 0)
           then match_from ?rx [] (Suc 0) [''abc''] ((Map.empty :: ctx)(''id'' \<mapsto> [''abc''] ! 0))
           else Inr (Map.empty, False))"
    using C2_regex_parameter_search [where name = "''id''" and src = "''[0-9]+''" and rx = ?rx
        and re = ?re and i = 0 and us = "[''abc'']" and rest = "[]" and c = Map.empty]
    by simp
  show ?thesis
    unfolding a b by (simp add: MatchString_digits_abc42 MatchString_digits_abc)
qed

subsection \<open>Wildcard routes\<close>

text \<open>
  Claim C3 says that a pattern ending in \<^verbatim>\<open>/...\<close> matches a request path that has the
  preceding segments and no trailing segment at all, with the wildcard bound to the empty
  string, as \<^verbatim>\<open>/files/...\<close> against \<^verbatim>\<open>/files\<close>. The loop leaves at its bounds guard
  (\<^verbatim>\<open>i > len(urlSegments)-1\<close>) before it looks at the token: \<^verbatim>\<open>/files\<close> does not match.
\<close>

theorem C3_counterexample:
  "wildcard (new_route ''/files/...'' ''GET'' (\<lambda>w r. w))
   \<and> match Map.empty (new_route ''/files/...'' ''GET'' (\<lambda>w r. w)) Map.empty (Split ''/files'' CHR ''/'')
       = Inr (Map.empty, False)"
  by (simp add: new_route_def match_def HasSuffix_def HasPrefix_def)

text \<open>
  Claim C3, as the code has it: for a pattern ending in \<^verbatim>\<open>/...\<close> whose preceding segments
  \<open>pre\<close> (none of them the token \<^verbatim>\<open>...\<close>) match the request, the route matches exactly when
  the request has a segment at the wildcard's position, and then binds the key \<^verbatim>\<open>...\<close> to
  the request's remaining segments joined by \<^verbatim>\<open>/\<close>. A trailing empty segment counts
  (\<^verbatim>\<open>/files/\<close> binds the empty string); with no trailing segment at all there is no match.
\<close>

theorem C3_wildcard_needs_a_segment:
  assumes "HasSuffix pattern ''/...''"
    and "segments rt = Split pattern CHR ''/''"
    and "wildcard rt = HasSuffix pattern ''/...''"
    and "pre = Split (take (length pattern - 4) pattern) CHR ''/''"
    and "''...'' \<notin> set pre"
    and "match_from rx pre 0 us c = Inr (c', True)"
  shows "match rx rt c us =
           (if length pre < length us
            then Inr (c'(''...'' \<mapsto> Join (drop (length pre) us) ''/''), True)
            else Inr (c', False))"
proof -
  have "segments rt = pre @ [''...'']"
    using assms(1,2,4) by (simp add: Split_wildcard_suffix)
  moreover have "wildcard rt"
    using assms(1,3) by simp
  ultimately have "match rx rt c us = match_from rx (pre @ ''...'' # []) 0 us c"
    by (simp add: match_def)
  then show ?thesis
    using match_from_wildcard_token [OF assms(5,6)] by simp
qed

theorem C3_witness:
  "match Map.empty (new_route ''/files/...'' ''GET'' (\<lambda>w r. w)) Map.empty
       (Split ''/files/a/b/c'' CHR ''/'')
     = Inr ([''...'' \<mapsto> ''a/b/c''], True)
   \<and> match Map.empty (new_route ''/files/...'' ''GET'' (\<lambda>w r. w)) Map.empty
       (Split ''/files/'' CHR ''/'')
     = Inr ([''...'' \<mapsto> []], True)"
  using C3_wildcard_needs_a_segment [of "''/files/...''" "new_route ''/files/...'' ''GET'' (\<lambda>w r. w)"
      "['''', ''files'']" Map.empty "['''', ''files'', ''a'', ''b'', ''c'']" Map.empty Map.empty]
    C3_wildcard_needs_a_segment [of "''/files/...''" "new_route ''/files/...'' ''GET'' (\<lambda>w r. w)"
      "['''', ''files'']" Map.empty "['''', ''files'', '''']" Map.empty Map.empty]
  by (simp add: new_route_def HasSuffix_def HasPrefix_def)

text \<open>
  Claim C9: when the route's segments hold the token \<^verbatim>\<open>...\<close> at any position, also in the
  middle of a pattern whose wildcard flag is false, and the loop reaches the token (the
  segments before it match, and the request has a segment at that index, which the
  segment-count check guarantees when the flag is false), the matcher succeeds at once,
  binds the key \<^verbatim>\<open>...\<close> to the request's remaining segments joined by \<^verbatim>\<open>/\<close>, and the
  result does not depend on the segments \<open>post\<close> after the token. The wildcard flag does
  nothing but switch off the segment-count check before the loop.
\<close>

theorem C9_wildcard_token_anywhere:
  assumes "segments rt = pre @ ''...'' # post"
    and "''...'' \<notin> set pre"
    and "match_from rx pre 0 us c = Inr (c', True)"
    and "if wildcard rt then length pre < length us else length us = length (segments rt)"
  shows "match rx rt c us = Inr (c'(''...'' \<mapsto> Join (drop (length pre) us) ''/''), True)
       \<and> match rx (rt\<lparr>wildcard := True\<rparr>) c us = match_from rx (segments rt) 0 us c
       \<and> match rx (rt\<lparr>wildcard := False\<rparr>) c us =
           (if length us \<noteq> length (segments rt) then Inr (c, False)
            else match_from rx (segments rt) 0 us c)"
proof -
  from assms(1,4) have len: "length pre < length us"
    by (auto split: if_splits)
  from assms(1,4) have "match rx rt c us = match_from rx (pre @ ''...'' # post) 0 us c"
    by (auto simp: match_def split: if_splits)
  also have "\<dots> = Inr (c'(''...'' \<mapsto> Join (drop (length pre) us) ''/''), True)"
    using match_from_wildcard_token [OF assms(2,3)] len by simp
  finally show ?thesis
    by (simp add: match_def)
qed

theorem C9_witness:
  "match Map.empty (new_route ''/a/.../b'' ''GET'' (\<lambda>w r. w)) Map.empty (Split ''/a/x/y'' CHR ''/'')
     = Inr ([''...'' \<mapsto> ''x/y''], True)
   \<and> \<not> wildcard (new_route ''/a/.../b'' ''GET'' (\<lambda>w r. w))"
proof -
  let ?rt = "new_route ''/a/.../b'' ''GET'' (\<lambda>w r. w)"
  let ?us = "['''', ''a'', ''x'', ''y'']"
  have flag: "\<not> wildcard ?rt"
    by (simp add: new_route_def HasSuffix_def)
  have segs: "segments ?rt = ['''', ''a''] @ ''...'' # [''b'']"
    by (simp add: new_route_def)
  have pre: "match_from Map.empty ['''', ''a''] 0 ?us Map.empty = Inr (Map.empty, True)"
    by (simp add: HasPrefix_def)
  have len: "if wildcard ?rt then length ['''', ''a''] < length ?us
             else length ?us = length (segments ?rt)"
    by (simp add: new_route_def HasSuffix_def)
  have "match Map.empty ?rt Map.empty ?us
          = Inr ((Map.empty :: ctx)(''...'' \<mapsto> Join (drop (length ['''', ''a'']) ?us) ''/''), True)"
    using C9_wildcard_token_anywhere [OF segs _ pre len] by simp
  then show ?thesis
    using flag by simp
qed

subsection \<open>Unconstrained parameters\<close>

text \<open>
  Claim C8: at a segment \<^verbatim>\<open>:name\<close> without a regex the matcher goes on only when the
  request segment is not empty, and binds \<open>name\<close> to it; an empty request segment is no
  match. So the pattern \<^verbatim>\<open>/users/:id\<close> matches \<^verbatim>\<open>/users/42\<close> with \<open>id\<close> bound to \<^verbatim>\<open>42\<close>, and
  does not match \<^verbatim>\<open>/users/\<close>.
\<close>

theorem C8_plain_parameter:
  assumes "segment = CHR '':'' # name"
    and "CHR ''|'' \<notin> set name"
    and "i < length us"
  shows "match_from rx (segment # rest) i us c =
           (if us ! i = [] then Inr (c, False)
            else match_from rx rest (Suc i) us (c(name \<mapsto> us ! i)))
       \<and> match rx (new_route ''/users/:id'' meth h) c (Split ''/users/42'' CHR ''/'')
           = Inr (c(''id'' \<mapsto> ''42''), True)
       \<and> match rx (new_route ''/users/:id'' meth h) c (Split ''/users/'' CHR ''/'')
           = Inr (c, False)"
proof -
  have "Cut ''id'' CHR ''|'' = (''id'', [], False)"
    by (simp add: Cut_def)
  then have "match rx (new_route ''/users/:id'' meth h) c (Split ''/users/42'' CHR ''/'')
           = Inr (c(''id'' \<mapsto> ''42''), True)"
    and "match rx (new_route ''/users/:id'' meth h) c (Split ''/users/'' CHR ''/'')
           = Inr (c, False)"
    by (simp_all add: new_route_def match_def HasSuffix_def HasPrefix_def TrimPrefix_def)
  then show ?thesis
    using assms by (simp add: HasPrefix_colon TrimPrefix_colon Cut_absent)
qed

theorem C8_witness:
  "match_from Map.empty ['':id''] 2 ['''', ''users'', ''42''] Map.empty
     = Inr ([''id'' \<mapsto> ''42''], True)
   \<and> match_from Map.empty ['':id''] 2 ['''', ''users'', ''''] Map.empty
     = Inr (Map.empty, False)"
proof -
  have a: "match_from Map.empty ['':id''] 2 ['''', ''users'', ''42''] Map.empty
        = (if ['''', ''users'', ''42''] ! 2 = [] then Inr (Map.empty, False)
           else match_from Map.empty [] (Suc 2) ['''', ''users'', ''42'']
                  ((Map.empty :: ctx)(''id'' \<mapsto> ['''', ''users'', ''42''] ! 2)))"
    using C8_plain_parameter [where name = "''id''" and i = 2 and us = "['''', ''users'', ''42'']"
        and rx = Map.empty and rest = "[]" and c = Map.empty]
    by simp
  have b: "match_from Map.empty ['':id''] 2 ['''', ''users'', ''''] Map.empty
        = (if ['''', ''users'', ''''] ! 2 = [] then Inr (Map.empty, False)
           else match_from Map.empty [] (Suc 2) ['''', ''users'', '''']
                  ((Map.empty :: ctx)(''id'' \<mapsto> ['''', ''users'', ''''] ! 2)))"
    using C8_plain_parameter [where name = "''id''" and i = 2 and us = "['''', ''users'', '''']"
        and rx = Map.empty and rest = "[]" and c = Map.empty]
    by simp
  have "['''', ''users'', ''42''] ! 2 = ''42''" and "['''', ''users'', ''''] ! 2 = ''''"
    by simp_all
  then show ?thesis
    unfolding a b by simp
qed

section \<open>The dispatcher\<close>

lemma contains_iff: "contains s e = (e \<in> set s)"
  by (induction s) auto

lemma remdups_drop_repeated: "x \<in> set zs \<Longrightarrow> remdups (ys @ x # zs) = remdups (ys @ zs)"
  by (induction ys) auto

lemma accumulate_first_occurrences:
  "distinct acc \<Longrightarrow>
   foldl (\<lambda>a x. if \<not> contains a x then a @ [x] else a) acc xs = rev (remdups (rev (acc @ xs)))"
proof (induction xs arbitrary: acc)
  case Nil
  then show ?case by (simp add: distinct_remdups_id)
next
  case (Cons x xs)
  show ?case
  proof (cases "x \<in> set acc")
    case True
    then have "remdups (rev xs @ x # rev acc) = remdups (rev xs @ rev acc)"
      by (simp add: remdups_drop_repeated)
    with True Cons show ?thesis
      by (simp add: contains_iff)
  next
    case False
    with Cons.prems have "distinct (acc @ [x])" by simp
    from Cons.IH [OF this] False show ?thesis
      by (simp add: contains_iff)
  qed
qed

lemma serve_routes_skip:
  assumes "\<forall>p\<in>set pre. \<exists>c ok. match rx p (Context r) segs = Inr (c, ok) \<and> (ok \<longrightarrow> method' p \<noteq> Method r)"
  shows "serve_routes rx m w r segs (pre @ rest) acc =
           serve_routes rx m w r segs rest
             (foldl (\<lambda>a x. if \<not> contains a x then a @ [x] else a) acc
                (map method' (filter (\<lambda>p. \<exists>c. match rx p (Context r) segs = Inr (c, True)) pre)))"
  using assms
proof (induction pre arbitrary: acc)
  case Nil
  then show ?case by simp
next
  case (Cons p pre)
  then obtain c ok where p: "match rx p (Context r) segs = Inr (c, ok)" "ok \<longrightarrow> method' p \<noteq> Method r"
    by auto
  from Cons have IH: "\<And>acc. serve_routes rx m w r segs (pre @ rest) acc =
           serve_routes rx m w r segs rest
             (foldl (\<lambda>a x. if \<not> contains a x then a @ [x] else a) acc
                (map method' (filter (\<lambda>p. \<exists>c. match rx p (Context r) segs = Inr (c, True)) pre)))"
    by simp
  show ?case
    using p by (cases ok) (auto simp: IH)
qed

lemma count_list_distinct: "distinct xs \<Longrightarrow> count_list xs x = (if x \<in> set xs then 1 else 0)"
  by (induction xs) auto

lemma method_new_route: "method' (new_route pattern meth h) = ToUpper meth"
  by (simp add: new_route_def)

lemma match_literal_a:
  "match rx (new_route ''/a'' meth h) c [[], ''a''] = Inr (c, True)"
  by (simp add: new_route_def match_def HasSuffix_def HasPrefix_def)

lemma match_literal_widgets:
  "match rx (new_route ''/widgets'' meth h) c [[], ''widgets''] = Inr (c, True)"
  by (simp add: new_route_def match_def HasSuffix_def HasPrefix_def)

lemma ToUpper_GET: "ToUpper ''GET'' = ''GET''"
  by code_simp

lemma ToUpper_POST: "ToUpper ''POST'' = ''POST''"
  by code_simp

lemma ToUpper_OPTIONS: "ToUpper ''OPTIONS'' = ''OPTIONS''"
  by code_simp

text \<open>
  Claim C1: the dispatcher scans the table in registration order. When every route before
  \<open>rt\<close> either does not match the path or has another method, and \<open>rt\<close> matches the path
  and has the request's method, the response is that of \<open>rt\<close>'s handler, run on the
  request with the bound parameters; the routes \<open>post\<close> registered after \<open>rt\<close> play no
  part, so of two routes with the same pattern and method the earlier one answers.
\<close>

theorem C1_first_match_dispatch:
  assumes "routes m = pre @ rt # post"
    and "\<forall>p\<in>set pre. \<exists>c ok. match rx p (Context r) (Split (Path r) CHR ''/'') = Inr (c, ok)
            \<and> (ok \<longrightarrow> method' p \<noteq> Method r)"
    and "match rx rt (Context r) (Split (Path r) CHR ''/'') = Inr (c, True)"
    and "method' rt = Method r"
  shows "ServeHTTP rx m w r = Inr (handler rt w (r\<lparr>Context := c\<rparr>))"
  using assms(1,3,4) by (simp add: ServeHTTP_def serve_routes_skip [OF assms(2)])

theorem C1_witness:
  "ServeHTTP Map.empty
     (New\<lparr>routes := [new_route ''/a'' ''POST'' (trace_handler ''first''),
                     new_route ''/a'' ''POST'' (trace_handler ''second'')]\<rparr>)
     \<lparr>header = Map.empty, status = None, body = []\<rparr>
     \<lparr>Method = ''POST'', Path = ''/a'', Context = Map.empty\<rparr>
   = Inr \<lparr>header = Map.empty, status = Some 200, body = ''first''\<rparr>"
proof -
  let ?m = "New\<lparr>routes := [new_route ''/a'' ''POST'' (trace_handler ''first''),
                     new_route ''/a'' ''POST'' (trace_handler ''second'')]\<rparr>"
  let ?r = "\<lparr>Method = ''POST'', Path = ''/a'', Context = Map.empty\<rparr>"
  have "ServeHTTP Map.empty ?m \<lparr>header = Map.empty, status = None, body = []\<rparr> ?r
      = Inr (handler (new_route ''/a'' ''POST'' (trace_handler ''first''))
               \<lparr>header = Map.empty, status = None, body = []\<rparr> (?r\<lparr>Context := Map.empty\<rparr>))"
    by (rule C1_first_match_dispatch [where pre = "[]"
          and post = "[new_route ''/a'' ''POST'' (trace_handler ''second'')]"])
       (simp_all add: match_literal_a method_new_route ToUpper_POST)
  then show ?thesis
    by (simp add: new_route_def trace_handler_def Write_def WriteHeader_def)
qed

text \<open>
  Claim C4: when at least one route matches the path and no route that matches the path
  has the request's method, the dispatcher sets the header \<^verbatim>\<open>Allow\<close> to the methods of
  the routes that match the path, each once, in the order in which the scan met them
  first (\<open>rev (remdups (rev xs))\<close> keeps the first occurrence of every element of \<open>xs\<close>),
  followed by \<^verbatim>\<open>OPTIONS\<close>, joined by commas. It then runs the wrapped \<open>Options\<close> handler
  when the request's method is \<^verbatim>\<open>OPTIONS\<close> and the wrapped \<open>MethodNotAllowed\<close> handler
  otherwise. The default \<open>Options\<close> handler answers 204 and writes no body, the default
  \<open>MethodNotAllowed\<close> handler answers 405.
\<close>

theorem C4_allow_header:
  assumes "\<forall>p\<in>set (routes m). \<exists>c ok. match rx p (Context r) (Split (Path r) CHR ''/'') = Inr (c, ok)
            \<and> (ok \<longrightarrow> method' p \<noteq> Method r)"
    and "\<exists>p\<in>set (routes m). \<exists>c. match rx p (Context r) (Split (Path r) CHR ''/'') = Inr (c, True)"
    and "allowed = rev (remdups (rev (map method'
            (filter (\<lambda>p. \<exists>c. match rx p (Context r) (Split (Path r) CHR ''/'') = Inr (c, True))
               (routes m)))))"
  shows "ServeHTTP rx m w r =
           Inr ((if Method r = ''OPTIONS'' then wrap m (Options m) else wrap m (MethodNotAllowed m))
                  (Header_Set w ''Allow'' (Join (allowed @ [''OPTIONS'']) '','')) r)
       \<and> distinct allowed
       \<and> (status w = None \<longrightarrow>
            status (Options New w r) = Some 204 \<and> body (Options New w r) = body w)
       \<and> (status w = None \<longrightarrow> status (MethodNotAllowed New w r) = Some 405)"
proof -
  have "serve_routes rx m w r (Split (Path r) CHR ''/'') (routes m @ []) [] =
          serve_routes rx m w r (Split (Path r) CHR ''/'') [] allowed"
    unfolding assms(3) using accumulate_first_occurrences [of "[]"]
    by (simp only: serve_routes_skip [OF assms(1)] distinct.simps append_Nil)
  moreover have "allowed \<noteq> []"
    using assms(2) by (auto simp: assms(3) filter_empty_conv)
  ultimately have "ServeHTTP rx m w r =
           Inr ((if Method r = ''OPTIONS'' then wrap m (Options m) else wrap m (MethodNotAllowed m))
                  (Header_Set w ''Allow'' (Join (allowed @ [''OPTIONS'']) '','')) r)"
    by (simp add: ServeHTTP_def)
  moreover have "distinct allowed"
    by (simp add: assms(3))
  ultimately show ?thesis
    by (simp add: New_def WriteHeader_def http_Error_def Write_def Header_Set_def)
qed

theorem C4_witness:
  "ServeHTTP Map.empty (New\<lparr>routes := [new_route ''/widgets'' ''POST'' (trace_handler ''created'')]\<rparr>)
     \<lparr>header = Map.empty, status = None, body = []\<rparr>
     \<lparr>Method = ''GET'', Path = ''/widgets'', Context = Map.empty\<rparr>
   = Inr \<lparr>header = [''Allow'' \<mapsto> [''POST,OPTIONS''],
                     ''Content-Type'' \<mapsto> [''text/plain; charset=utf-8''],
                     ''X-Content-Type-Options'' \<mapsto> [''nosniff'']],
           status = Some 405,
           body = ''Method Not Allowed'' @ [CHR 0x0A]\<rparr>
   \<and> ServeHTTP Map.empty
       (New\<lparr>routes := [new_route ''/a'' ''GET'' (trace_handler ''read''),
                       new_route ''/a'' ''POST'' (trace_handler ''created''),
                       new_route ''/a'' ''GET'' (trace_handler ''read'')]\<rparr>)
       \<lparr>header = Map.empty, status = None, body = []\<rparr>
       \<lparr>Method = ''OPTIONS'', Path = ''/a'', Context = Map.empty\<rparr>
     = Inr \<lparr>header = [''Allow'' \<mapsto> [''GET,POST,OPTIONS'']], status = Some 204, body = []\<rparr>"
proof -
  let ?w = "\<lparr>header = Map.empty, status = None, body = []\<rparr>"
  let ?m1 = "New\<lparr>routes := [new_route ''/widgets'' ''POST'' (trace_handler ''created'')]\<rparr>"
  let ?r1 = "\<lparr>Method = ''GET'', Path = ''/widgets'', Context = Map.empty\<rparr>"
  let ?m2 = "New\<lparr>routes := [new_route ''/a'' ''GET'' (trace_handler ''read''),
                       new_route ''/a'' ''POST'' (trace_handler ''created''),
                       new_route ''/a'' ''GET'' (trace_handler ''read'')]\<rparr>"
  let ?r2 = "\<lparr>Method = ''OPTIONS'', Path = ''/a'', Context = Map.empty\<rparr>"
  have a: "ServeHTTP Map.empty ?m1 ?w ?r1 =
      Inr ((if Method ?r1 = ''OPTIONS'' then wrap ?m1 (Options ?m1) else wrap ?m1 (MethodNotAllowed ?m1))
             (Header_Set ?w ''Allow'' (Join ([''POST''] @ [''OPTIONS'']) '','')) ?r1)"
    using C4_allow_header [where m = ?m1 and r = ?r1 and rx = Map.empty and w = ?w
        and allowed = "[''POST'']"]
    by (auto simp: match_literal_widgets method_new_route ToUpper_POST)
  have b: "ServeHTTP Map.empty ?m2 ?w ?r2 =
      Inr ((if Method ?r2 = ''OPTIONS'' then wrap ?m2 (Options ?m2) else wrap ?m2 (MethodNotAllowed ?m2))
             (Header_Set ?w ''Allow'' (Join ([''GET'', ''POST''] @ [''OPTIONS'']) '','')) ?r2)"
    using C4_allow_header [where m = ?m2 and r = ?r2 and rx = Map.empty and w = ?w
        and allowed = "[''GET'', ''POST'']"]
    by (auto simp: match_literal_a method_new_route ToUpper_POST ToUpper_GET)
  show ?thesis
    unfolding a b
    by (simp add: New_def wrap_def Header_Set_def http_Error_def Write_def WriteHeader_def)
qed

text \<open>
  Claim C10: when a route registered for the method \<^verbatim>\<open>OPTIONS\<close> matches the path and no
  route that matches the path has the request's method, the list behind the \<^verbatim>\<open>Allow\<close>
  header holds \<^verbatim>\<open>OPTIONS\<close> twice: once among the collected methods, where duplicates are
  skipped, and once more at the end, where it is appended without a check.
\<close>

theorem C10_options_listed_twice:
  assumes "\<forall>p\<in>set (routes m). \<exists>c ok. match rx p (Context r) (Split (Path r) CHR ''/'') = Inr (c, ok)
            \<and> (ok \<longrightarrow> method' p \<noteq> Method r)"
    and "\<exists>p\<in>set (routes m). method' p = ''OPTIONS''
            \<and> (\<exists>c. match rx p (Context r) (Split (Path r) CHR ''/'') = Inr (c, True))"
    and "allowed = rev (remdups (rev (map method'
            (filter (\<lambda>p. \<exists>c. match rx p (Context r) (Split (Path r) CHR ''/'') = Inr (c, True))
               (routes m)))))"
  shows "ServeHTTP rx m w r =
           Inr (wrap m (MethodNotAllowed m)
                  (Header_Set w ''Allow'' (Join (allowed @ [''OPTIONS'']) '','')) r)
       \<and> count_list (allowed @ [''OPTIONS'']) ''OPTIONS'' = 2"
proof -
  have "serve_routes rx m w r (Split (Path r) CHR ''/'') (routes m @ []) [] =
          serve_routes rx m w r (Split (Path r) CHR ''/'') [] allowed"
    unfolding assms(3) using accumulate_first_occurrences [of "[]"]
    by (simp only: serve_routes_skip [OF assms(1)] distinct.simps append_Nil)
  moreover have mem: "''OPTIONS'' \<in> set allowed"
    using assms(2) by (fastforce simp: assms(3) image_iff)
  moreover have "Method r \<noteq> ''OPTIONS''"
    using assms(1,2) by fastforce
  ultimately have "ServeHTTP rx m w r =
           Inr (wrap m (MethodNotAllowed m)
                  (Header_Set w ''Allow'' (Join (allowed @ [''OPTIONS'']) '','')) r)"
    by (auto simp: ServeHTTP_def)
  moreover have "distinct allowed"
    by (simp add: assms(3))
  ultimately show ?thesis
    using mem by (simp add: count_list_distinct)
qed

theorem C10_witness:
  "ServeHTTP Map.empty (New\<lparr>routes := [new_route ''/a'' ''OPTIONS'' (trace_handler ''custom'')]\<rparr>)
     \<lparr>header = Map.empty, status = None, body = []\<rparr>
     \<lparr>Method = ''GET'', Path = ''/a'', Context = Map.empty\<rparr>
   = Inr \<lparr>header = [''Allow'' \<mapsto> [''OPTIONS,OPTIONS''],
                     ''Content-Type'' \<mapsto> [''text/plain; charset=utf-8''],
                     ''X-Content-Type-Options'' \<mapsto> [''nosniff'']],
           status = Some 405,
           body = ''Method Not Allowed'' @ [CHR 0x0A]\<rparr>"
proof -
  let ?w = "\<lparr>header = Map.empty, status = None, body = []\<rparr>"
  let ?m = "New\<lparr>routes := [new_route ''/a'' ''OPTIONS'' (trace_handler ''custom'')]\<rparr>"
  let ?r = "\<lparr>Method = ''GET'', Path = ''/a'', Context = Map.empty\<rparr>"
  have "ServeHTTP Map.empty ?m ?w ?r =
      Inr (wrap ?m (MethodNotAllowed ?m)
             (Header_Set ?w ''Allow'' (Join ([''OPTIONS''] @ [''OPTIONS'']) '','')) ?r)"
    using C10_options_listed_twice [where m = ?m and r = ?r and rx = Map.empty and w = ?w
        and allowed = "[''OPTIONS'']"]
    by (auto simp: match_literal_a method_new_route ToUpper_OPTIONS)
  then show ?thesis
    by (simp add: New_def wrap_def Header_Set_def http_Error_def Write_def WriteHeader_def)
qed


section \<open>Registration and middleware\<close>

lemma wrap_from_foldr:
  "n \<le> length mws \<Longrightarrow> wrap_from mws n h = foldr (\<lambda>mw k. mw k) (take n mws) h"
proof (induction n arbitrary: h)
  case 0
  then show ?case by simp
next
  case (Suc n)
  then have "take (Suc n) mws = take n mws @ [mws ! n]"
    by (simp add: take_Suc_conv_app_nth)
  with Suc show ?case by simp
qed

lemma wrap_foldr: "wrap m h = foldr (\<lambda>mw k. mw k) (middleware m) h"
  by (simp add: wrap_def wrap_from_foldr)

lemma add_routes_eq:
  "add_routes m pattern h methods =
     m\<lparr>routes := routes m @ map (\<lambda>meth. new_route pattern meth (wrap m h)) methods\<rparr>"
  by (induction methods arbitrary: m) (simp_all add: wrap_def)

lemma Handle_routes:
  assumes "Handle compile (rx, m) pattern h methods = Inr (rx', m')"
  shows "routes m' = routes m @ map (\<lambda>meth. new_route pattern meth (wrap m h))
           (let methods1 = (if length methods = 0 then allMethods else methods)
            in if contains methods1 ''GET'' \<and> \<not> contains methods1 ''HEAD''
               then methods1 @ [''GET''] else methods1)"
  using assms by (auto simp: Handle_def Let_def add_routes_eq split: sum.splits)

lemma Handle_a_no_regex:
  "Handle compile (rx, m) ''/a'' h [meth] =
     Inr (rx, add_routes m ''/a'' h
                (if meth = ''GET'' then [meth, ''GET''] else [meth]))"
  by (simp add: Handle_def HasPrefix_def Let_def)

lemma count_list_map_mem: "x \<in> set xs \<Longrightarrow> 1 \<le> count_list (map f xs) (f x)"
  by (induction xs) auto

text \<open>
  Claim C5: when the method list of a registration contains \<^verbatim>\<open>GET\<close> and does not contain
  \<^verbatim>\<open>HEAD\<close>, the routes added are those of the list followed by one more \<^verbatim>\<open>GET\<close> route,
  so the same \<^verbatim>\<open>GET\<close> route is in the table at least twice; no \<^verbatim>\<open>HEAD\<close> route is added
  (unless the list itself has a method that is \<^verbatim>\<open>HEAD\<close> in upper case).
\<close>

theorem C5_get_registered_twice:
  assumes "contains methods ''GET''" and "\<not> contains methods ''HEAD''"
    and "Handle compile (rx, m) pattern h methods = Inr (rx', m')"
  shows "routes m' = routes m @ map (\<lambda>meth. new_route pattern meth (wrap m h)) (methods @ [''GET''])
       \<and> method' (new_route pattern ''GET'' (wrap m h)) = ''GET''
       \<and> 2 \<le> count_list (drop (length (routes m)) (routes m')) (new_route pattern ''GET'' (wrap m h))
       \<and> (''HEAD'' \<notin> ToUpper ` set methods \<longrightarrow>
            ''HEAD'' \<notin> method' ` set (drop (length (routes m)) (routes m')))"
proof -
  from assms(1) have ne: "methods \<noteq> []" by auto
  with assms have r: "routes m' =
      routes m @ map (\<lambda>meth. new_route pattern meth (wrap m h)) (methods @ [''GET''])"
    using Handle_routes [OF assms(3)] by (simp add: Let_def)
  have "1 \<le> count_list (map (\<lambda>meth. new_route pattern meth (wrap m h)) methods)
               (new_route pattern ''GET'' (wrap m h))"
    using assms(1) by (intro count_list_map_mem) (simp add: contains_iff)
  then have "2 \<le> count_list (drop (length (routes m)) (routes m')) (new_route pattern ''GET'' (wrap m h))"
    by (simp add: r)
  moreover have "''HEAD'' \<notin> ToUpper ` set methods \<longrightarrow>
            ''HEAD'' \<notin> method' ` set (drop (length (routes m)) (routes m'))"
    by (auto simp: r new_route_def ToUpper_GET)
  ultimately show ?thesis
    using r by (simp add: new_route_def ToUpper_GET)
qed

theorem C5_witness:
  "Handle (\<lambda>s. None) (Map.empty, New) ''/a'' (trace_handler ''read'') [''GET'']
     = Inr (Map.empty, add_routes New ''/a'' (trace_handler ''read'') [''GET'', ''GET''])
   \<and> routes (add_routes New ''/a'' (trace_handler ''read'') [''GET'', ''GET''])
     = [new_route ''/a'' ''GET'' (trace_handler ''read''), new_route ''/a'' ''GET'' (trace_handler ''read'')]"
proof -
  have h: "Handle (\<lambda>s. None) (Map.empty, New) ''/a'' (trace_handler ''read'') [''GET'']
     = Inr (Map.empty, add_routes New ''/a'' (trace_handler ''read'') [''GET'', ''GET''])"
    by (simp add: Handle_a_no_regex)
  have "routes (add_routes New ''/a'' (trace_handler ''read'') [''GET'', ''GET''])
      = routes New @ map (\<lambda>meth. new_route ''/a'' meth (wrap New (trace_handler ''read'')))
          ([''GET''] @ [''GET''])"
    using C5_get_registered_twice [OF _ _ h] by simp
  then show ?thesis
    using h by (simp add: New_def wrap_def)
qed

text \<open>
  Claim C6: with the middleware \<open>A\<close>, \<open>B\<close> registered in that order, \<open>wrap\<close> turns a
  handler \<open>H\<close> into \<open>A (B H)\<close>: \<open>A\<close> is outermost. With middleware that writes its name on
  the way in and on the way out, the body reads \<open>A\<close>, \<open>B\<close>, \<open>H\<close> inbound and \<open>H\<close>, \<open>B\<close>,
  \<open>A\<close> outbound. In general \<open>wrap\<close> is the right fold of the middleware list.
\<close>

theorem C6_wrap_onion:
  "wrap (Use (m\<lparr>middleware := []\<rparr>) [A, B]) H = A (B H)
   \<and> wrap (Use (Use (m\<lparr>middleware := []\<rparr>) [A]) [B]) H = A (B H)
   \<and> body (wrap (Use (m\<lparr>middleware := []\<rparr>) [trace_middleware a, trace_middleware b])
             (trace_handler h) w r)
       = body w @ a @ ''>'' @ b @ ''>'' @ h @ ''<'' @ b @ ''<'' @ a
   \<and> wrap m H = foldr (\<lambda>mw k. mw k) (middleware m) H"
proof -
  have "wrap m H = foldr (\<lambda>mw k. mw k) (middleware m) H"
    by (rule wrap_foldr)
  then show ?thesis
    by (simp add: wrap_foldr Use_def trace_middleware_def trace_handler_def Write_def
          WriteHeader_def)
qed

theorem C6_witness:
  "body (wrap (Use New [trace_middleware ''A'', trace_middleware ''B'']) (trace_handler ''H'')
           \<lparr>header = Map.empty, status = None, body = []\<rparr>
           \<lparr>Method = ''GET'', Path = ''/'', Context = Map.empty\<rparr>)
     = ''A>B>H<B<A''"
proof -
  let ?w = "\<lparr>header = Map.empty, status = None, body = []\<rparr>"
  let ?r = "\<lparr>Method = ''GET'', Path = ''/'', Context = Map.empty\<rparr>"
  have e: "New\<lparr>middleware := []\<rparr> = New"
    by (simp add: New_def)
  from C6_wrap_onion [of New _ _ _ "''A''" "''B''" "''H''" ?w ?r]
  have "body (wrap (Use (New\<lparr>middleware := []\<rparr>) [trace_middleware ''A'', trace_middleware ''B''])
                (trace_handler ''H'') ?w ?r)
          = body ?w @ ''A'' @ ''>'' @ ''B'' @ ''>'' @ ''H'' @ ''<'' @ ''B'' @ ''<'' @ ''A''"
    by blast
  then show ?thesis
    unfolding e by simp
qed

text \<open>
  Claim C7: a registration leaves the routes that were in the table as they were and adds
  at least one route; the handler of every route it adds is the supplied handler wrapped
  in the middleware list that the router had at the registration. \<open>Use\<close> afterwards does
  not touch the table, and neither does a later registration change the routes that are
  already there.
\<close>

theorem C7_handler_fixed_at_registration:
  assumes "Handle compile (rx, m) pattern h methods = Inr (rx', m')"
  shows "take (length (routes m)) (routes m') = routes m
       \<and> drop (length (routes m)) (routes m') \<noteq> []
       \<and> (\<forall>rt\<in>set (drop (length (routes m)) (routes m')). handler rt = wrap m h)
       \<and> wrap m h = foldr (\<lambda>mw k. mw k) (middleware m) h
       \<and> routes (Use m' mws) = routes m'
       \<and> (\<forall>p2 h2 ms2 rx2 m2.
            Handle compile (rx', Use m' mws) p2 h2 ms2 = Inr (rx2, m2) \<longrightarrow>
              take (length (routes m')) (routes m2) = routes m')"
proof -
  note r = Handle_routes [OF assms]
  have "take (length (routes m)) (routes m') = routes m"
    by (simp add: r)
  moreover have "drop (length (routes m)) (routes m') \<noteq> []"
    by (simp add: r Let_def allMethods_def)
  moreover have "\<forall>rt\<in>set (drop (length (routes m)) (routes m')). handler rt = wrap m h"
    by (auto simp: r new_route_def)
  moreover have "routes (Use m' mws) = routes m'"
    by (simp add: Use_def)
  moreover have "\<forall>p2 h2 ms2 rx2 m2.
            Handle compile (rx', Use m' mws) p2 h2 ms2 = Inr (rx2, m2) \<longrightarrow>
              take (length (routes m')) (routes m2) = routes m'"
  proof (intro allI impI)
    fix p2 h2 ms2 rx2 m2
    assume "Handle compile (rx', Use m' mws) p2 h2 ms2 = Inr (rx2, m2)"
    from Handle_routes [OF this] show "take (length (routes m')) (routes m2) = routes m'"
      by (simp add: Use_def)
  qed
  ultimately show ?thesis
    by (simp add: wrap_foldr)
qed

theorem C7_witness:
  "Handle (\<lambda>s. None) (Map.empty, Use New [trace_middleware ''A'']) ''/a'' (trace_handler ''H'') [''POST'']
     = Inr (Map.empty, add_routes (Use New [trace_middleware ''A'']) ''/a'' (trace_handler ''H'') [''POST''])
   \<and> map (\<lambda>rt. body (handler rt \<lparr>header = Map.empty, status = None, body = []\<rparr>
                         \<lparr>Method = ''POST'', Path = ''/a'', Context = Map.empty\<rparr>))
        (routes (Use (add_routes (Use New [trace_middleware ''A'']) ''/a'' (trace_handler ''H'') [''POST''])
                   [trace_middleware ''B'']))
     = [''A>H<A'']"
proof -
  let ?m = "Use New [trace_middleware ''A'']"
  let ?m' = "add_routes ?m ''/a'' (trace_handler ''H'') [''POST'']"
  have h: "Handle (\<lambda>s. None) (Map.empty, ?m) ''/a'' (trace_handler ''H'') [''POST''] = Inr (Map.empty, ?m')"
    by (simp add: Handle_a_no_regex)
  from C7_handler_fixed_at_registration [OF h, of "[trace_middleware ''B'']"]
  have keep: "routes (Use ?m' [trace_middleware ''B'']) = routes ?m'"
    and fixed: "\<forall>rt\<in>set (drop (length (routes ?m)) (routes ?m')). handler rt = wrap ?m (trace_handler ''H'')"
    by blast+
  have "routes ?m = []"
    by (simp add: Use_def New_def)
  with fixed have "map handler (routes ?m') = [wrap ?m (trace_handler ''H'')]"
    by simp
  moreover have "body (wrap ?m (trace_handler ''H'') \<lparr>header = Map.empty, status = None, body = []\<rparr>
                         \<lparr>Method = ''POST'', Path = ''/a'', Context = Map.empty\<rparr>) = ''A>H<A''"
    by (simp add: wrap_def Use_def New_def trace_middleware_def trace_handler_def Write_def WriteHeader_def)
  ultimately show ?thesis
    using h keep by (simp add: map_eq_Cons_conv)
qed


section \<open>Tables built by registration never panic\<close>

text \<open>
  A successful \<^verbatim>\<open>Handle\<close> keeps the cache covering every route of the table, and on such a
  table neither the matcher nor the dispatcher reaches the nil expression.
\<close>

lemma match_from_no_panic:
  "cache_covers rx segs \<Longrightarrow> \<exists>c' ok. match_from rx segs i us c = Inr (c', ok)"
proof (induction segs arbitrary: i c)
  case Nil
  then show ?case by auto
next
  case (Cons s segs)
  then have IH: "\<And>i c. \<exists>c' ok. match_from rx segs i us c = Inr (c', ok)"
    by (simp add: cache_covers_def)
  from Cons.prems have s: "\<not> HasPrefix s '':'' \<or>
        (case Cut (TrimPrefix s '':'') CHR ''|'' of
           (k, rxPattern, containsRx) \<Rightarrow> \<not> containsRx \<or> rx rxPattern \<noteq> None)"
    by (simp add: cache_covers_def)
  show ?case
    using s IH by (auto split: prod.splits option.splits)
qed

lemma match_no_panic:
  "cache_covers rx (segments rt) \<Longrightarrow> \<exists>c' ok. match rx rt c us = Inr (c', ok)"
  using match_from_no_panic [of rx "segments rt" 0 us c] by (auto simp: match_def)

lemma serve_routes_no_panic:
  "\<forall>rt\<in>set rts. cache_covers rx (segments rt) \<Longrightarrow>
     \<exists>w'. serve_routes rx m w r segs rts acc = Inr w'"
proof (induction rts arbitrary: acc)
  case Nil
  then show ?case by (auto simp: Let_def)
next
  case (Cons rt rts)
  then obtain c' ok where "match rx rt (Context r) segs = Inr (c', ok)"
    using match_no_panic [of rx rt "Context r" segs] by auto
  with Cons show ?case by simp
qed

lemma ServeHTTP_no_panic:
  "\<forall>rt\<in>set (routes m). cache_covers rx (segments rt) \<Longrightarrow> \<exists>w'. ServeHTTP rx m w r = Inr w'"
  by (simp add: ServeHTTP_def serve_routes_no_panic)

lemma cache_covers_mono:
  "cache_covers rx segs \<Longrightarrow> dom rx \<subseteq> dom rx' \<Longrightarrow> cache_covers rx' segs"
  by (fastforce simp: cache_covers_def list_all_iff split: prod.splits)

lemma Cut_colon:
  "Cut (CHR '':'' # t) CHR ''|'' =
     (case Cut t CHR ''|'' of (k, p, b) \<Rightarrow> (if b then CHR '':'' # k else CHR '':'' # t, p, b))"
  by (simp add: Cut_def)

lemma HasPrefix_colon_iff: "HasPrefix s '':'' = (\<exists>t. s = CHR '':'' # t)"
  by (cases s) (auto simp: HasPrefix_def)

lemma compile_segments_covers:
  "compile_segments compile rx segs = Inr rx' \<Longrightarrow> dom rx \<subseteq> dom rx' \<and> cache_covers rx' segs"
proof (induction segs arbitrary: rx)
  case Nil
  then show ?case by (simp add: cache_covers_def)
next
  case (Cons s segs)
  show ?case
  proof (cases "HasPrefix s '':''")
    case False
    with Cons.prems have "compile_segments compile rx segs = Inr rx'" by simp
    from Cons.IH [OF this] False show ?thesis
      by (simp add: cache_covers_def)
  next
    case True
    then obtain t where s: "s = CHR '':'' # t"
      by (auto simp: HasPrefix_colon_iff)
    obtain k p b where cut: "Cut t CHR ''|'' = (k, p, b)"
      by (cases "Cut t CHR ''|''") auto
    show ?thesis
    proof (cases b)
      case False
      with Cons.prems s cut have "compile_segments compile rx segs = Inr rx'"
        by (simp add: HasPrefix_colon Cut_colon)
      from Cons.IH [OF this] False cut show ?thesis
        by (simp add: cache_covers_def s TrimPrefix_colon)
    next
      case True
      with Cons.prems s cut obtain re where re: "compile p = Some re"
        and rest: "compile_segments compile (rx(p \<mapsto> re)) segs = Inr rx'"
        by (auto simp: HasPrefix_colon Cut_colon split: option.splits)
      from Cons.IH [OF rest] have d: "dom (rx(p \<mapsto> re)) \<subseteq> dom rx'" and cs: "cache_covers rx' segs"
        by blast+
      have "dom (rx(p \<mapsto> re)) = insert p (dom rx)"
        by simp
      with d have "rx' p \<noteq> None" and "dom rx \<subseteq> dom rx'"
        by auto
      with cs cut show ?thesis
        by (simp add: cache_covers_def s TrimPrefix_colon HasPrefix_colon)
    qed
  qed
qed

lemma Handle_keeps_cover:
  assumes "Handle compile (rx, m) pattern h methods = Inr (rx', m')"
    and "\<forall>rt\<in>set (routes m). cache_covers rx (segments rt)"
  shows "\<forall>rt\<in>set (routes m'). cache_covers rx' (segments rt)"
proof -
  from assms(1) have c: "compile_segments compile rx (Split pattern CHR ''/'') = Inr rx'"
    by (auto simp: Handle_def Let_def split: sum.splits)
  note cov = compile_segments_covers [OF c]
  from Handle_routes [OF assms(1)] obtain ms where
    "routes m' = routes m @ map (\<lambda>meth. new_route pattern meth (wrap m h)) ms"
    by blast
  then show ?thesis
    using assms(2) cov by (auto simp: new_route_def intro: cache_covers_mono)
qed

end
